theory Spec2Isabelle
  imports Main
begin

section \<open>Strings and character classes\<close>

text \<open>
  The two source files \<^verbatim>\<open>app1.py\<close> and \<^verbatim>\<open>pdf_bot_new.py\<close> hold the same
  \<^verbatim>\<open>load_articles\<close> and \<^verbatim>\<open>get_answer\<close>, token for token; one embedding serves both.

  A Python \<^verbatim>\<open>str\<close> is modelled as a \<open>string\<close> whose characters are the code points
  below 128. On these, \<^verbatim>\<open>str.isspace\<close> and the regular expression class \<^verbatim>\<open>\s\<close> hold
  of the same ten characters (tab, line feed, vertical tab, form feed, carriage
  return, the four separators 0x1C to 0x1F, and the space), \<^verbatim>\<open>\d\<close> of the ten digits,
  and \<^verbatim>\<open>upper\<close> and \<^verbatim>\<open>lower\<close> exchange the 26 letters and leave the rest alone.
  A character above 127 belongs to no class here and is left alone by both.
\<close>

definition NL :: char where
  "NL = CHR 0x0A"

definition whitespace :: string where
  "whitespace = [CHR 0x09, CHR 0x0A, CHR 0x0B, CHR 0x0C, CHR 0x0D,
                 CHR 0x1C, CHR 0x1D, CHR 0x1E, CHR 0x1F, CHR 0x20]"

definition digits :: string where
  "digits = ''0123456789''"

definition ascii_uppercase :: string where
  "ascii_uppercase = ''ABCDEFGHIJKLMNOPQRSTUVWXYZ''"

definition ascii_lowercase :: string where
  "ascii_lowercase = ''abcdefghijklmnopqrstuvwxyz''"

definition is_space :: "char \<Rightarrow> bool" where
  "is_space c = (c \<in> set whitespace)"

definition is_digit :: "char \<Rightarrow> bool" where
  "is_digit c = (c \<in> set digits)"

definition is_upper :: "char \<Rightarrow> bool" where
  "is_upper c = (c \<in> set ascii_uppercase)"

definition is_lower :: "char \<Rightarrow> bool" where
  "is_lower c = (c \<in> set ascii_lowercase)"

text \<open>The class \<^verbatim>\<open>[A-Za-z]\<close>.\<close>

definition is_alpha :: "char \<Rightarrow> bool" where
  "is_alpha c = (is_upper c \<or> is_lower c)"

text \<open>The class \<^verbatim>\<open>[IVXLC]\<close>.\<close>

definition is_roman :: "char \<Rightarrow> bool" where
  "is_roman c = (c \<in> set ''IVXLC'')"

definition to_lower :: "char \<Rightarrow> char" where
  "to_lower c = (case map_of (zip ascii_uppercase ascii_lowercase) c of
                   Some d \<Rightarrow> d | None \<Rightarrow> c)"

definition to_upper :: "char \<Rightarrow> char" where
  "to_upper c = (case map_of (zip ascii_lowercase ascii_uppercase) c of
                   Some d \<Rightarrow> d | None \<Rightarrow> c)"

text \<open>\<^verbatim>\<open>s.lower()\<close>, \<^verbatim>\<open>s.upper()\<close> and \<^verbatim>\<open>s.strip()\<close>.\<close>

definition str_lower :: "string \<Rightarrow> string" where
  "str_lower s = map to_lower s"

definition str_upper :: "string \<Rightarrow> string" where
  "str_upper s = map to_upper s"

definition str_strip :: "string \<Rightarrow> string" where
  "str_strip s = rev (dropWhile is_space (rev (dropWhile is_space s)))"

text \<open>
  \<^verbatim>\<open>text.split('\n')\<close>: the pieces between line feeds; a text without one is a
  single piece, and the empty text gives one empty piece.
\<close>

fun str_split_nl :: "string \<Rightarrow> string list" where
  "str_split_nl [] = [[]]"
| "str_split_nl (c # cs) =
     (if c = NL then [] # str_split_nl cs
      else (case str_split_nl cs of
              l # ls \<Rightarrow> (c # l) # ls
            | [] \<Rightarrow> [[c]]))"

text \<open>\<^verbatim>\<open>"\n".join(xs)\<close>.\<close>

fun str_join_nl :: "string list \<Rightarrow> string" where
  "str_join_nl [] = []"
| "str_join_nl [x] = x"
| "str_join_nl (x # y # ys) = x @ NL # str_join_nl (y # ys)"

text \<open>\<^verbatim>\<open>sub in s\<close> on strings: \<open>sub\<close> occurs in \<open>s\<close> as a contiguous piece.\<close>

fun starts_with :: "string \<Rightarrow> string \<Rightarrow> bool" where
  "starts_with [] s = True"
| "starts_with (p # ps) [] = False"
| "starts_with (p # ps) (c # cs) = (p = c \<and> starts_with ps cs)"

fun str_contains :: "string \<Rightarrow> string \<Rightarrow> bool" where
  "str_contains sub [] = (sub = [])"
| "str_contains sub (c # cs) = (starts_with sub (c # cs) \<or> str_contains sub cs)"

section \<open>Regular expressions of the source\<close>

text \<open>
  Each pattern of the source is a function that reads the string the way Python's
  backtracking matcher does: alternatives in their written order, greedy repetition
  first. A run \<^verbatim>\<open>\d+\<close>, \<^verbatim>\<open>\s*\<close> or \<^verbatim>\<open>\s+\<close> is taken whole: in every pattern below the
  item that follows the run cannot match a character of the run's class, so giving
  characters back never lets a failed match succeed. The one item that could, the
  \<^verbatim>\<open>(.*)\<close> after \<^verbatim>\<open>\s+\<close> in the article pattern, ends the pattern and matches the
  empty string too, so the first attempt, with the whole run taken, succeeds.
\<close>

text \<open>A literal at the start of the string; the result is what follows it.\<close>

fun lit :: "string \<Rightarrow> string \<Rightarrow> string option" where
  "lit [] s = Some s"
| "lit (p # ps) [] = None"
| "lit (p # ps) (c # cs) = (if p = c then lit ps cs else None)"

text \<open>
  The anchor \<^verbatim>\<open>$\<close> (no \<^verbatim>\<open>MULTILINE\<close> flag): at the end of the string, or before a
  line feed that ends it.
\<close>

definition at_end :: "string \<Rightarrow> bool" where
  "at_end r = (r = [] \<or> r = [NL])"

subsection \<open>Patterns of \<^verbatim>\<open>get_answer\<close>\<close>

text \<open>The group \<^verbatim>\<open>(\d+[a-z]?)\<close> at the start of the string: its captured text.\<close>

definition num_group :: "string \<Rightarrow> string option" where
  "num_group s =
     (let ds = takeWhile is_digit s; r = dropWhile is_digit s in
      if ds = [] then None
      else (case r of
              [] \<Rightarrow> Some ds
            | c # _ \<Rightarrow> if is_lower c then Some (ds @ [c]) else Some ds))"

text \<open>\<^verbatim>\<open>\s*(\d+[a-z]?)\<close> at the start of the string.\<close>

definition ws_num :: "string \<Rightarrow> string option" where
  "ws_num s = num_group (dropWhile is_space s)"

text \<open>
  \<^verbatim>\<open>(?:article|art\.?)\s*(\d+[a-z]?)\<close> matched at the start of the string: group 1.
  The branch \<^verbatim>\<open>article\<close> is tried first, then \<^verbatim>\<open>art\<close> with the period, then
  \<^verbatim>\<open>art\<close> without it.
\<close>

definition article_at :: "string \<Rightarrow> string option" where
  "article_at s =
     (case (case lit ''article'' s of Some r \<Rightarrow> ws_num r | None \<Rightarrow> None) of
        Some g \<Rightarrow> Some g
      | None \<Rightarrow>
          (case lit ''art'' s of
             None \<Rightarrow> None
           | Some r \<Rightarrow>
               (case (case lit ''.'' r of Some r' \<Rightarrow> ws_num r' | None \<Rightarrow> None) of
                  Some g \<Rightarrow> Some g
                | None \<Rightarrow> ws_num r)))"

text \<open>
  \<^verbatim>\<open>re.search(r'(?:article|art\.?)\s*(\d+[a-z]?)', q)\<close>: the match at the leftmost
  position that has one; \<open>None\<close> when no position has.
\<close>

fun re_search_article :: "string \<Rightarrow> string option" where
  "re_search_article [] = article_at []"
| "re_search_article (c # cs) =
     (case article_at (c # cs) of
        Some g \<Rightarrow> Some g
      | None \<Rightarrow> re_search_article cs)"

text \<open>\<^verbatim>\<open>re.match(r'^\d+[a-z]?$', q)\<close>.\<close>

definition re_match_number :: "string \<Rightarrow> bool" where
  "re_match_number q =
     (let ds = takeWhile is_digit q; r = dropWhile is_digit q in
      if ds = [] then False
      else (case r of
              [] \<Rightarrow> True
            | c # r' \<Rightarrow> (is_lower c \<and> at_end r') \<or> at_end r))"

subsection \<open>Patterns of \<^verbatim>\<open>load_articles\<close>\<close>

text \<open>The optional group \<^verbatim>\<open>(\d+\[)\<close> at the start of the string: what follows it.\<close>

definition bracket_prefix :: "string \<Rightarrow> string option" where
  "bracket_prefix s =
     (let ds = takeWhile is_digit s; r = dropWhile is_digit s in
      if ds = [] then None
      else (case r of
              [] \<Rightarrow> None
            | c # r' \<Rightarrow> if c = CHR ''['' then Some r' else None))"

text \<open>
  \<^verbatim>\<open>\.\s+(.*)\<close> at the start of the string: group 3. The dot of \<^verbatim>\<open>(.*)\<close> matches
  every character but the line feed.
\<close>

definition dot_content :: "string \<Rightarrow> string option" where
  "dot_content s =
     (case s of
        [] \<Rightarrow> None
      | c # r \<Rightarrow>
          if c = CHR ''.'' then
            (if takeWhile is_space r = [] then None
             else Some (takeWhile (\<lambda>x. x \<noteq> NL) (dropWhile is_space r)))
          else None)"

text \<open>
  \<^verbatim>\<open>(\d+[A-Z]?)\.\s+(.*)\<close> at the start of the string: groups 2 and 3. The letter is
  taken first and given back when no period follows it.
\<close>

definition art_body :: "string \<Rightarrow> (string \<times> string) option" where
  "art_body s =
     (let ds = takeWhile is_digit s; r = dropWhile is_digit s in
      if ds = [] then None
      else (case r of
              [] \<Rightarrow> None
            | c # r' \<Rightarrow>
                (case (if is_upper c then dot_content r' else None) of
                   Some content \<Rightarrow> Some (ds @ [c], content)
                 | None \<Rightarrow>
                     (case dot_content r of
                        Some content \<Rightarrow> Some (ds, content)
                      | None \<Rightarrow> None))))"

text \<open>
  \<^verbatim>\<open>art_pattern.match(line)\<close> for \<^verbatim>\<open>^(\d+\[)?(\d+[A-Z]?)\.\s+(.*)\<close>: groups 2 and 3
  of the match. The bracketed prefix is tried first, then the match without it.
  Group 1 is read by the source into \<^verbatim>\<open>prefix\<close> and never used.
\<close>

definition art_pattern :: "string \<Rightarrow> (string \<times> string) option" where
  "art_pattern line =
     (case (case bracket_prefix line of Some r \<Rightarrow> art_body r | None \<Rightarrow> None) of
        Some m \<Rightarrow> Some m
      | None \<Rightarrow> art_body line)"

text \<open>\<^verbatim>\<open>\s+[IVXLC]+\<close> at the start of the string.\<close>

definition ws_roman :: "string \<Rightarrow> bool" where
  "ws_roman r =
     (if takeWhile is_space r = [] then False
      else (case dropWhile is_space r of
              [] \<Rightarrow> False
            | c # _ \<Rightarrow> is_roman c))"

text \<open>\<^verbatim>\<open>(PART\s+[IVXLC]+|CHAPTER\s+[IVXLC]+)\<close> at the start of the string.\<close>

definition part_or_chapter :: "string \<Rightarrow> bool" where
  "part_or_chapter s =
     ((case lit ''PART'' s of Some r \<Rightarrow> ws_roman r | None \<Rightarrow> False) \<or>
      (case lit ''CHAPTER'' s of Some r \<Rightarrow> ws_roman r | None \<Rightarrow> False))"

text \<open>
  \<^verbatim>\<open>structure_pattern.match(line)\<close> for
  \<^verbatim>\<open>^(\d+\[)?(PART\s+[IVXLC]+|CHAPTER\s+[IVXLC]+)\<close>.
\<close>

definition structure_pattern :: "string \<Rightarrow> bool" where
  "structure_pattern line =
     ((case bracket_prefix line of Some r \<Rightarrow> part_or_chapter r | None \<Rightarrow> False) \<or>
      part_or_chapter line)"

definition footnote_keywords :: "string list" where
  "footnote_keywords =
     [''Subs.'', ''Ins.'', ''Omitted'', ''Rep.'', ''Added'', ''Substituted'', ''Inserted'']"

text \<open>
  A keyword at the start of the string, read as the pattern text it is in the source:
  the keywords are joined with \<^verbatim>\<open>|\<close> unescaped, so the period of \<^verbatim>\<open>Subs.\<close>,
  \<^verbatim>\<open>Ins.\<close> and \<^verbatim>\<open>Rep.\<close> is the wildcard, which matches every character but the
  line feed.
\<close>

fun keyword_at :: "string \<Rightarrow> string \<Rightarrow> bool" where
  "keyword_at [] s = True"
| "keyword_at (p # ps) [] = False"
| "keyword_at (p # ps) (c # cs) =
     ((if p = CHR ''.'' then c \<noteq> NL else p = c) \<and> keyword_at ps cs)"

text \<open>
  \<^verbatim>\<open>footnote_regex.match(line)\<close> for
  \<^verbatim>\<open>^\d+\.\s+(Subs.|Ins.|Omitted|Rep.|Added|Substituted|Inserted)\<close>.
\<close>

definition footnote_regex :: "string \<Rightarrow> bool" where
  "footnote_regex line =
     (let ds = takeWhile is_digit line; r = dropWhile is_digit line in
      if ds = [] then False
      else (case r of
              [] \<Rightarrow> False
            | c # r' \<Rightarrow>
                c = CHR ''.'' \<and> takeWhile is_space r' \<noteq> [] \<and>
                list_ex (\<lambda>k. keyword_at k (dropWhile is_space r')) footnote_keywords))"

text \<open>\<^verbatim>\<open>re.match(r'^\d+$', line)\<close>.\<close>

definition re_match_digits :: "string \<Rightarrow> bool" where
  "re_match_digits line =
     (takeWhile is_digit line \<noteq> [] \<and> at_end (dropWhile is_digit line))"

text \<open>\<^verbatim>\<open>re.match(r'^\d+\s+\d+$', line)\<close>.\<close>

definition re_match_digit_pair :: "string \<Rightarrow> bool" where
  "re_match_digit_pair line =
     (let r = dropWhile is_digit line; r' = dropWhile is_space r in
      takeWhile is_digit line \<noteq> [] \<and> takeWhile is_space r \<noteq> [] \<and>
      takeWhile is_digit r' \<noteq> [] \<and> at_end (dropWhile is_digit r'))"

section \<open>The query resolver\<close>

definition not_found_message :: string where
  "not_found_message = ''The requested article is not found in the document.''"

definition no_information_message :: string where
  "no_information_message = ''The document does not contain this information.''"

text \<open>
  \<^verbatim>\<open>f"Article {key}\n\n{articles[key]}"\<close> when the key is in the dictionary, the
  not-found message otherwise: the body of both \<^verbatim>\<open>if key in articles\<close> statements.
\<close>

definition lookup :: "string \<Rightarrow> (string \<rightharpoonup> string) \<Rightarrow> string" where
  "lookup key articles =
     (case articles key of
        Some body \<Rightarrow> ''Article '' @ key @ [NL, NL] @ body
      | None \<Rightarrow> not_found_message)"

definition get_answer :: "string \<Rightarrow> (string \<rightharpoonup> string) \<Rightarrow> string" where
  "get_answer query articles =
     (let q = str_lower (str_strip query) in
      case re_search_article q of
        Some g \<Rightarrow> lookup (str_upper g) articles
      | None \<Rightarrow>
          if re_match_number q then lookup (str_upper q) articles
          else no_information_message)"

section \<open>The extractor\<close>

text \<open>
  The variables that the scan of \<^verbatim>\<open>load_articles\<close> updates: the dictionary
  \<^verbatim>\<open>articles\<close>, the article in progress (\<open>None\<close> for Python's \<^verbatim>\<open>None\<close>), its lines so
  far, and the set of article numbers already started.
\<close>

record scan_state =
  articles :: "string \<rightharpoonup> string"
  current_art_num :: "string option"
  current_art_text :: "string list"
  seen_articles :: "string set"

text \<open>\<^verbatim>\<open>if current_art_num:\<close> holds of a string that is not empty.\<close>

definition truthy :: "string option \<Rightarrow> bool" where
  "truthy x = (case x of None \<Rightarrow> False | Some s \<Rightarrow> s \<noteq> [])"

text \<open>
  \<^verbatim>\<open>articles[current_art_num] = "\n".join(current_art_text).strip()\<close>, guarded by
  \<^verbatim>\<open>if current_art_num:\<close> as at each of its three places in the source.
\<close>

definition save_current :: "scan_state \<Rightarrow> scan_state" where
  "save_current st =
     (case current_art_num st of
        None \<Rightarrow> st
      | Some n \<Rightarrow>
          if n = [] then st
          else st\<lparr>articles := (articles st)(n \<mapsto> str_strip (str_join_nl (current_art_text st)))\<rparr>)"

text \<open>The body of the loop over the lines of a page.\<close>

definition process_line :: "scan_state \<Rightarrow> string \<Rightarrow> scan_state" where
  "process_line st raw =
     (let line = str_strip raw in
      if line = [] then st
      else if structure_pattern line then
        (if truthy (current_art_num st)
         then (save_current st)\<lparr>current_art_num := None, current_art_text := []\<rparr>
         else st)
      else
        (case art_pattern line of
           Some (art_num_candidate, content_part) \<Rightarrow>
             if footnote_regex line then st
             else if str_contains ''Amendment) Act'' content_part
                     \<or> str_contains ''w.e.f.'' content_part then st
             else if \<not> list_ex is_alpha content_part then st
             else if art_num_candidate \<in> seen_articles st then st
             else (save_current st)
                    \<lparr>current_art_num := Some art_num_candidate,
                     current_art_text := [content_part],
                     seen_articles := insert art_num_candidate (seen_articles st)\<rparr>
         | None \<Rightarrow>
             if truthy (current_art_num st) then
               (if re_match_digits line then st
                else if re_match_digit_pair line then st
                else st\<lparr>current_art_text := current_art_text st @ [line]\<rparr>)
             else st))"

text \<open>
  The body of the loop over the pages: a page whose extracted text is empty is
  skipped, any other is split at its line feeds.
\<close>

definition process_page :: "scan_state \<Rightarrow> string \<Rightarrow> scan_state" where
  "process_page st text =
     (if text = [] then st else foldl process_line st (str_split_nl text))"

definition start_page_index :: nat where
  "start_page_index = 20"

definition initial_state :: scan_state where
  "initial_state =
     \<lparr>articles = Map.empty, current_art_num = None,
      current_art_text = [], seen_articles = {}\<rparr>"

text \<open>
  \<^verbatim>\<open>load_articles\<close>, from the pages of the opened document on (the list of the texts
  that \<^verbatim>\<open>extract_text\<close> gives, page by page). Opening the file is outside the model.
\<close>

definition load_articles :: "string list \<Rightarrow> (string \<rightharpoonup> string)" where
  "load_articles pages =
     articles (save_current (foldl process_page initial_state (drop start_page_index pages)))"

section \<open>Notions used in the statements\<close>

text \<open>
  An article id of the data model: digits, then at most one upper-case letter.
\<close>

definition is_article_id :: "string \<Rightarrow> bool" where
  "is_article_id k =
     (takeWhile is_digit k \<noteq> [] \<and>
      (case dropWhile is_digit k of [] \<Rightarrow> True | c # r \<Rightarrow> is_upper c \<and> r = []))"

text \<open>
  The value of \<^verbatim>\<open>key\<close> that \<^verbatim>\<open>get_answer\<close> looks up: from the first pattern when it is
  found, else from the whole query when that is a number; \<open>None\<close> when the function
  reaches its last \<^verbatim>\<open>return\<close>.
\<close>

definition lookup_key :: "string \<Rightarrow> string option" where
  "lookup_key query =
     (let q = str_lower (str_strip query) in
      case re_search_article q of
        Some g \<Rightarrow> Some (str_upper g)
      | None \<Rightarrow> if re_match_number q then Some (str_upper q) else None)"

text \<open>
  What \<^verbatim>\<open>[a-z]?\<close> takes after the digits: the lower-case letter that follows them, if
  one does.
\<close>

definition letter_suffix :: "string \<Rightarrow> string" where
  "letter_suffix rest = (case rest of [] \<Rightarrow> [] | c # _ \<Rightarrow> if is_lower c then [c] else [])"

text \<open>
  The resolver's pattern in words, at the start of a string: the keyword
  \<^verbatim>\<open>article\<close>, \<^verbatim>\<open>art\<close> or \<^verbatim>\<open>art.\<close>, then any whitespace, then at least one digit.
\<close>

definition keyword_number_at :: "string \<Rightarrow> bool" where
  "keyword_number_at s =
     (\<exists>kw ws ds rest. s = kw @ ws @ ds @ rest \<and>
        (kw = ''article'' \<or> kw = ''art'' \<or> kw = ''art.'') \<and>
        list_all is_space ws \<and> ds \<noteq> [] \<and> list_all is_digit ds)"

text \<open>A string with no whitespace at its start or its end.\<close>

definition no_outer_space :: "string \<Rightarrow> bool" where
  "no_outer_space v = (case v of [] \<Rightarrow> True | c # _ \<Rightarrow> \<not> is_space c \<and> \<not> is_space (last v))"

text \<open>
  The invariant of the scan: every key of the dictionary and the article in progress
  are article ids, and every stored text is trimmed.
\<close>

definition store_ok :: "scan_state \<Rightarrow> bool" where
  "store_ok st =
     ((\<forall>k v. articles st k = Some v \<longrightarrow> is_article_id k \<and> no_outer_space v) \<and>
      (\<forall>n. current_art_num st = Some n \<longrightarrow> is_article_id n))"

text \<open>The lines that the scan reads from one page: none from a page without text.\<close>

definition page_lines :: "string \<Rightarrow> string list" where
  "page_lines text = (if text = [] then [] else str_split_nl text)"

text \<open>
  The lines that reach the classification of \<^verbatim>\<open>load_articles\<close>, in order: the lines of
  the pages from \<^verbatim>\<open>start_page_index\<close> on, trimmed, without the blank ones.
\<close>

definition scanned_lines :: "string list \<Rightarrow> string list" where
  "scanned_lines pages =
     filter (\<lambda>l. l \<noteq> []) (map str_strip (concat (map page_lines (drop start_page_index pages))))"

section \<open>Character classes and strings\<close>

lemmas class_defs = is_space_def whitespace_def is_digit_def digits_def is_upper_def
  is_lower_def ascii_uppercase_def ascii_lowercase_def

lemma upper_table:
  "\<forall>c\<in>set ascii_uppercase. is_lower (to_lower c) \<and> to_upper (to_lower c) = c \<and> \<not> is_lower c"
  by code_simp

lemma lower_table:
  "\<forall>c\<in>set ascii_lowercase. is_upper (to_upper c) \<and> to_lower (to_upper c) = c \<and> \<not> is_upper c"
  by code_simp

lemma digit_table:
  "\<forall>c\<in>set digits. \<not> is_space c \<and> \<not> is_lower c \<and> \<not> is_upper c \<and> to_lower c = c \<and> to_upper c = c"
  by code_simp

lemma space_table:
  "\<forall>c\<in>set whitespace. \<not> is_lower c \<and> \<not> is_upper c \<and> \<not> is_digit c"
  by code_simp

lemma to_lower_upper: "is_upper c \<Longrightarrow> is_lower (to_lower c) \<and> to_upper (to_lower c) = c"
  using upper_table by (simp add: is_upper_def)

lemma to_upper_lower: "is_lower c \<Longrightarrow> is_upper (to_upper c) \<and> to_lower (to_upper c) = c"
  using lower_table by (simp add: is_lower_def)

lemma upper_not_lower: "is_upper c \<Longrightarrow> \<not> is_lower c"
  using upper_table by (simp add: is_upper_def)

lemma to_lower_other: "\<not> is_upper c \<Longrightarrow> to_lower c = c"
proof -
  assume h: "\<not> is_upper c"
  have "map fst (zip ascii_uppercase ascii_lowercase) = ascii_uppercase"
    by (simp add: ascii_uppercase_def ascii_lowercase_def)
  then have "fst ` set (zip ascii_uppercase ascii_lowercase) = set ascii_uppercase"
    by (metis set_map)
  with h have "map_of (zip ascii_uppercase ascii_lowercase) c = None"
    by (simp add: map_of_eq_None_iff is_upper_def)
  then show ?thesis by (simp add: to_lower_def)
qed

lemma to_upper_other: "\<not> is_lower c \<Longrightarrow> to_upper c = c"
proof -
  assume h: "\<not> is_lower c"
  have "map fst (zip ascii_lowercase ascii_uppercase) = ascii_lowercase"
    by (simp add: ascii_uppercase_def ascii_lowercase_def)
  then have "fst ` set (zip ascii_lowercase ascii_uppercase) = set ascii_lowercase"
    by (metis set_map)
  with h have "map_of (zip ascii_lowercase ascii_uppercase) c = None"
    by (simp add: map_of_eq_None_iff is_lower_def)
  then show ?thesis by (simp add: to_upper_def)
qed

lemma digit_not_space: "is_digit c \<Longrightarrow> \<not> is_space c"
  using digit_table by (simp add: is_digit_def)

lemma digit_not_lower: "is_digit c \<Longrightarrow> \<not> is_lower c"
  using digit_table by (simp add: is_digit_def)

lemma digit_not_upper: "is_digit c \<Longrightarrow> \<not> is_upper c"
  using digit_table by (simp add: is_digit_def)

lemma upper_not_space: "is_upper c \<Longrightarrow> \<not> is_space c"
  using space_table by (auto simp add: is_space_def)

lemma lower_not_space: "is_lower c \<Longrightarrow> \<not> is_space c"
  using space_table by (auto simp add: is_space_def)

lemma is_space_to_lower: "is_space (to_lower c) = is_space c"
proof (cases "is_upper c")
  case True
  then show ?thesis using to_lower_upper[OF True] upper_not_space lower_not_space by blast
next
  case False
  then show ?thesis by (simp add: to_lower_other)
qed

lemma to_lower_idem: "to_lower (to_lower c) = to_lower c"
proof (cases "is_upper c")
  case True
  then have "is_lower (to_lower c)" by (simp add: to_lower_upper)
  then have "\<not> is_upper (to_lower c)" using upper_not_lower by blast
  then show ?thesis by (rule to_lower_other)
next
  case False
  then show ?thesis by (simp add: to_lower_other)
qed


lemma to_upper_to_lower_alpha: "is_alpha c \<Longrightarrow> to_upper (to_lower c) = to_upper c"
  using to_lower_upper[of c] to_upper_lower[of c] to_lower_other[of c] upper_not_lower[of c]
    to_upper_other[of c]
  by (cases "is_upper c") (auto simp: is_alpha_def)

subsection \<open>strip\<close>

lemma dropWhile_id: "s = [] \<or> \<not> P (hd s) \<Longrightarrow> dropWhile P s = s"
  by (cases s) auto

lemma str_strip_id:
  assumes "s \<noteq> []" "\<not> is_space (hd s)" "\<not> is_space (last s)"
  shows "str_strip s = s"
proof -
  have a: "dropWhile is_space s = s" using assms by (simp add: dropWhile_id)
  have "hd (rev s) = last s" using assms by (simp add: hd_rev)
  then have "dropWhile is_space (rev s) = rev s" using assms by (simp add: dropWhile_id)
  with a show ?thesis by (simp add: str_strip_def)
qed

lemma str_strip_trimmed:
  "str_strip s = [] \<or> (\<not> is_space (hd (str_strip s)) \<and> \<not> is_space (last (str_strip s)))"
proof (cases "str_strip s = []")
  case True
  then show ?thesis by simp
next
  case False
  define t where "t = dropWhile is_space s"
  define u where "u = dropWhile is_space (rev t)"
  have su: "str_strip s = rev u" by (simp add: str_strip_def t_def u_def)
  with False have u: "u \<noteq> []" by simp
  then have "\<not> is_space (hd u)" unfolding u_def by (metis hd_dropWhile)
  then have l: "\<not> is_space (last (rev u))" using u by (simp add: last_rev)
  have "\<exists>v. rev t = v @ u" unfolding u_def by (metis takeWhile_dropWhile_id)
  then obtain v where "rev t = v @ u" ..
  then have tt: "t = rev u @ rev v" by (metis rev_append rev_rev_ident)
  have "t \<noteq> []" using tt u by simp
  then have "\<not> is_space (hd t)" unfolding t_def by (metis hd_dropWhile)
  then have "\<not> is_space (hd (rev u))" using tt u by simp
  with l su show ?thesis by simp
qed

lemma dropWhile_space_lower:
  "dropWhile is_space (map to_lower s) = map to_lower (dropWhile is_space s)"
  by (induction s) (simp_all add: is_space_to_lower)

lemma str_lower_strip: "str_lower (str_strip s) = str_strip (str_lower s)"
  by (simp add: str_lower_def str_strip_def rev_map dropWhile_space_lower)

section \<open>The resolver's patterns\<close>

lemma span_digits:
  assumes "list_all is_digit ds" "rest = [] \<or> \<not> is_digit (hd rest)"
  shows "takeWhile is_digit (ds @ rest) = ds" "dropWhile is_digit (ds @ rest) = rest"
proof -
  have a: "\<And>x. x \<in> set ds \<Longrightarrow> is_digit x" using assms(1) by (simp add: list_all_iff)
  have t: "takeWhile is_digit rest = []" using assms(2) by (cases rest) auto
  have d: "dropWhile is_digit rest = rest" using assms(2) by (cases rest) auto
  show "takeWhile is_digit (ds @ rest) = ds" using a t by (simp add: takeWhile_append2)
  show "dropWhile is_digit (ds @ rest) = rest" using a d by (simp add: dropWhile_append2)
qed

lemma num_group_run:
  assumes "ds \<noteq> []" "list_all is_digit ds" "rest = [] \<or> \<not> is_digit (hd rest)"
  shows "num_group (ds @ rest) = Some (ds @ letter_suffix rest)"
proof -
  have "num_group (ds @ rest) =
          (case rest of [] \<Rightarrow> Some ds
           | c # _ \<Rightarrow> if is_lower c then Some (ds @ [c]) else Some ds)"
    unfolding num_group_def span_digits[OF assms(2,3)] using assms(1) by simp
  then show ?thesis by (cases rest) (simp_all add: letter_suffix_def)
qed

lemma drop_spaces:
  assumes "list_all is_space ws" "s = [] \<or> \<not> is_space (hd s)"
  shows "dropWhile is_space (ws @ s) = s"
proof -
  have a: "\<And>x. x \<in> set ws \<Longrightarrow> is_space x" using assms(1) by (simp add: list_all_iff)
  have "dropWhile is_space s = s" using assms(2) by (cases s) auto
  with a show ?thesis by (simp add: dropWhile_append2)
qed

lemma ws_num_run:
  assumes "list_all is_space ws" "ds \<noteq> []" "list_all is_digit ds"
    "rest = [] \<or> \<not> is_digit (hd rest)"
  shows "ws_num (ws @ ds @ rest) = Some (ds @ letter_suffix rest)"
proof -
  have "is_digit (hd ds)" using assms(2,3) by (cases ds) simp_all
  then have "\<not> is_space (hd (ds @ rest))" using assms(2) by (simp add: digit_not_space)
  then have "dropWhile is_space (ws @ ds @ rest) = ds @ rest"
    using assms(1) by (simp add: drop_spaces)
  then show ?thesis using assms by (simp add: ws_num_def num_group_run)
qed

lemma space_or_digit_hd:
  assumes "list_all is_space ws" "ds \<noteq> []" "list_all is_digit ds"
  shows "\<exists>c t. ws @ ds @ rest = c # t \<and> (is_space c \<or> is_digit c)"
  using assms by (cases ws; cases ds) auto

lemma not_i_dot: "is_space c \<or> is_digit c \<Longrightarrow> c \<noteq> CHR ''i'' \<and> c \<noteq> CHR ''.''"
  by (auto simp: class_defs)

lemma article_at_run:
  assumes "kw = ''article'' \<or> kw = ''art'' \<or> kw = ''art.''"
    "list_all is_space ws" "ds \<noteq> []" "list_all is_digit ds"
    "rest = [] \<or> \<not> is_digit (hd rest)"
  shows "article_at (kw @ ws @ ds @ rest) = Some (ds @ letter_suffix rest)"
proof -
  obtain c t where ct: "ws @ ds @ rest = c # t" "is_space c \<or> is_digit c"
    using space_or_digit_hd[OF assms(2,3,4)] by blast
  have ne: "c \<noteq> CHR ''i''" "c \<noteq> CHR ''.''" using not_i_dot[OF ct(2)] by simp_all
  have w: "ws_num (c # t) = Some (ds @ letter_suffix rest)"
    using ws_num_run[OF assms(2,3,4,5)] ct(1) by simp
  from assms(1) show ?thesis
  proof (elim disjE)
    assume "kw = ''article''"
    then show ?thesis using w ct(1) by (simp add: article_at_def)
  next
    assume "kw = ''art''"
    then show ?thesis using w ct(1) ne by (simp add: article_at_def)
  next
    assume "kw = ''art.''"
    then show ?thesis using w ct(1) ne by (simp add: article_at_def)
  qed
qed

lemma lit_Some: "lit p s = Some r \<Longrightarrow> s = p @ r"
  by (induction p s rule: lit.induct) (auto split: if_splits)

lemma ws_num_Some:
  assumes "ws_num r = Some g"
  shows "\<exists>ws ds rest. r = ws @ ds @ rest \<and> list_all is_space ws \<and> ds \<noteq> [] \<and> list_all is_digit ds"
proof -
  define u where "u = dropWhile is_space r"
  have a: "r = takeWhile is_space r @ u" by (simp add: u_def)
  have b: "u = takeWhile is_digit u @ dropWhile is_digit u" by simp
  have c: "takeWhile is_digit u \<noteq> []"
    using assms by (auto simp: ws_num_def num_group_def u_def Let_def split: if_splits)
  have d: "list_all is_space (takeWhile is_space r)"
    by (simp add: list_all_iff) (metis set_takeWhileD)
  have e: "list_all is_digit (takeWhile is_digit u)"
    by (simp add: list_all_iff) (metis set_takeWhileD)
  from a b have "r = takeWhile is_space r @ takeWhile is_digit u @ dropWhile is_digit u"
    by metis
  with c d e show ?thesis by blast
qed

lemma article_at_Some_keyword:
  assumes "article_at s = Some g"
  shows "keyword_number_at s"
proof (cases "case lit ''article'' s of Some r \<Rightarrow> ws_num r | None \<Rightarrow> None")
  case (Some g')
  then obtain r where r: "lit ''article'' s = Some r" "ws_num r = Some g'"
    by (auto split: option.splits)
  from ws_num_Some[OF r(2)] lit_Some[OF r(1)] show ?thesis
    unfolding keyword_number_at_def by blast
next
  case None
  with assms obtain r where r: "lit ''art'' s = Some r"
    by (auto simp: article_at_def split: option.splits)
  show ?thesis
  proof (cases "case lit ''.'' r of Some r' \<Rightarrow> ws_num r' | None \<Rightarrow> None")
    case (Some g')
    then obtain r' where r': "lit ''.'' r = Some r'" "ws_num r' = Some g'"
      by (auto split: option.splits)
    have "s = ''art.'' @ r'" using lit_Some[OF r] lit_Some[OF r'(1)] by simp
    with ws_num_Some[OF r'(2)] show ?thesis
      unfolding keyword_number_at_def by blast
  next
    case n2: None
    with None assms r have "ws_num r = Some g"
      by (simp add: article_at_def)
    from ws_num_Some[OF this] lit_Some[OF r] show ?thesis
      unfolding keyword_number_at_def by blast
  qed
qed

lemma search_skip:
  "(\<forall>i<length pre. \<not> keyword_number_at (drop i (pre @ s))) \<Longrightarrow>
   re_search_article (pre @ s) = re_search_article s"
proof (induction pre)
  case Nil
  then show ?case by simp
next
  case (Cons c pre)
  have "\<not> keyword_number_at (drop 0 ((c # pre) @ s))" using Cons.prems by blast
  then have a: "article_at (c # pre @ s) = None"
    using article_at_Some_keyword by (cases "article_at (c # pre @ s)") auto
  have "\<forall>i<length pre. \<not> keyword_number_at (drop i (pre @ s))"
  proof (intro allI impI)
    fix i assume "i < length pre"
    then have "Suc i < length (c # pre)" by simp
    then have "\<not> keyword_number_at (drop (Suc i) ((c # pre) @ s))" using Cons.prems by blast
    then show "\<not> keyword_number_at (drop i (pre @ s))" by simp
  qed
  then show ?case using Cons.IH a by simp
qed

lemma search_here: "article_at s = Some g \<Longrightarrow> re_search_article s = Some g"
  by (cases s) simp_all

lemma get_answer_key:
  "get_answer query store =
     (case lookup_key query of Some key \<Rightarrow> lookup key store | None \<Rightarrow> no_information_message)"
  by (simp add: get_answer_def lookup_key_def Let_def split: option.splits)

lemma article_id_parts:
  assumes "is_article_id k"
  shows "\<exists>ds sfx. k = ds @ sfx \<and> ds \<noteq> [] \<and> list_all is_digit ds \<and>
           (sfx = [] \<or> (\<exists>c. sfx = [c] \<and> is_upper c))"
proof -
  have a: "k = takeWhile is_digit k @ dropWhile is_digit k" by simp
  have b: "list_all is_digit (takeWhile is_digit k)"
    by (simp add: list_all_iff) (metis set_takeWhileD)
  have c: "takeWhile is_digit k \<noteq> []" using assms by (simp add: is_article_id_def)
  have d: "dropWhile is_digit k = [] \<or> (\<exists>c. dropWhile is_digit k = [c] \<and> is_upper c)"
    using assms by (auto simp: is_article_id_def split: list.splits)
  from a b c d show ?thesis by blast
qed

lemma to_lower_digit: "is_digit c \<Longrightarrow> to_lower c = c"
  using digit_table by (simp add: is_digit_def)

lemma to_upper_digit: "is_digit c \<Longrightarrow> to_upper c = c"
  using digit_table by (simp add: is_digit_def)

lemma str_lower_digits: "list_all is_digit ds \<Longrightarrow> str_lower ds = ds"
  by (induction ds) (simp_all add: str_lower_def to_lower_digit)

lemma str_upper_digits: "list_all is_digit ds \<Longrightarrow> str_upper ds = ds"
  by (induction ds) (simp_all add: str_upper_def to_upper_digit)

lemma str_lower_append: "str_lower (a @ b) = str_lower a @ str_lower b"
  by (simp add: str_lower_def)

lemma str_upper_append: "str_upper (a @ b) = str_upper a @ str_upper b"
  by (simp add: str_upper_def)

lemma lower_Article: "str_lower ''Article '' = ''article ''"
  by code_simp

lemma alpha_to_lower: "is_alpha c \<Longrightarrow> is_lower (to_lower c)"
  using to_lower_upper[of c] to_lower_other[of c] by (cases "is_upper c") (auto simp: is_alpha_def)

lemma lower_not_digit: "is_lower c \<Longrightarrow> \<not> is_digit c"
  using digit_not_lower by blast

lemma alpha_not_space: "is_alpha c \<Longrightarrow> \<not> is_space c"
  using upper_not_space lower_not_space by (auto simp: is_alpha_def)

text \<open>A number with an optional letter: its lower-cased form.\<close>

lemma lower_number:
  assumes "list_all is_digit ds" "sfx = [] \<or> (\<exists>c. sfx = [c] \<and> is_alpha c)"
  shows "str_lower (ds @ sfx) = ds @ str_lower sfx"
    and "str_lower sfx = [] \<or> (\<exists>c. str_lower sfx = [c] \<and> is_lower c)"
    and "str_upper (ds @ str_lower sfx) = str_upper (ds @ sfx)"
proof -
  show "str_lower (ds @ sfx) = ds @ str_lower sfx"
    using assms(1) by (simp add: str_lower_append str_lower_digits)
  show "str_lower sfx = [] \<or> (\<exists>c. str_lower sfx = [c] \<and> is_lower c)"
    using assms(2) by (auto simp: str_lower_def alpha_to_lower)
  show "str_upper (ds @ str_lower sfx) = str_upper (ds @ sfx)"
    using assms(2) by (auto simp: str_upper_def str_lower_def to_upper_to_lower_alpha)
qed

lemma letter_suffix_lower:
  "t = [] \<or> (\<exists>c. t = [c] \<and> is_lower c) \<Longrightarrow>
   letter_suffix t = t \<and> (t = [] \<or> \<not> is_digit (hd t))"
  by (auto simp: letter_suffix_def lower_not_digit)

lemma digit_not_a: "is_digit d \<Longrightarrow> d \<noteq> CHR ''a''"
  by (auto simp: is_digit_def digits_def)

lemma article_at_short: "length t \<le> 1 \<Longrightarrow> article_at t = None"
  by (cases t) (auto simp: article_at_def split: option.splits)

lemma article_at_digit: "is_digit d \<Longrightarrow> article_at (d # t) = None"
  by (simp add: article_at_def digit_not_a[symmetric] digit_not_a)

lemma search_short: "length t \<le> 1 \<Longrightarrow> re_search_article t = None"
  by (cases t) (simp_all add: article_at_short)

lemma search_number_none:
  "list_all is_digit ds \<Longrightarrow> length t \<le> 1 \<Longrightarrow> re_search_article (ds @ t) = None"
  by (induction ds) (simp_all add: search_short article_at_digit)

lemma match_number:
  assumes "ds \<noteq> []" "list_all is_digit ds" "t = [] \<or> (\<exists>c. t = [c] \<and> is_lower c)"
  shows "re_match_number (ds @ t)"
proof -
  have r: "t = [] \<or> \<not> is_digit (hd t)" using assms(3) by (auto simp: lower_not_digit)
  show ?thesis
    unfolding re_match_number_def span_digits[OF assms(2) r]
    using assms(1,3) by (auto simp: at_end_def)
qed

lemma key_of_bare:
  assumes "str_strip query = ds @ sfx" "ds \<noteq> []" "list_all is_digit ds"
    "sfx = [] \<or> (\<exists>c. sfx = [c] \<and> is_alpha c)"
  shows "lookup_key query = Some (str_upper (ds @ sfx))"
proof -
  note l = lower_number[OF assms(3,4)]
  have q: "str_lower (str_strip query) = ds @ str_lower sfx" using assms(1) l(1) by simp
  have len: "length (str_lower sfx) \<le> 1" using l(2) by auto
  have n: "re_search_article (ds @ str_lower sfx) = None"
    using search_number_none[OF assms(3) len] .
  have m: "re_match_number (ds @ str_lower sfx)" using match_number[OF assms(2,3) l(2)] .
  show ?thesis using q n m l(3) by (simp add: lookup_key_def)
qed

lemma strip_Article_number:
  assumes "ds \<noteq> []" "list_all is_digit ds" "sfx = [] \<or> (\<exists>c. sfx = [c] \<and> is_alpha c)"
  shows "str_strip (''Article '' @ ds @ sfx) = ''Article '' @ ds @ sfx"
proof (rule str_strip_id)
  show "''Article '' @ ds @ sfx \<noteq> []" by simp
  show "\<not> is_space (hd (''Article '' @ ds @ sfx))" by (simp add: is_space_def whitespace_def)
  have "is_digit (last ds)" using assms(1,2) by (simp add: list_all_iff)
  then have "\<not> is_space (last (ds @ sfx))"
    using assms(1,3) by (auto simp: digit_not_space alpha_not_space)
  then show "\<not> is_space (last (''Article '' @ ds @ sfx))" using assms(1) by simp
qed

lemma key_of_article_query:
  assumes "ds \<noteq> []" "list_all is_digit ds" "sfx = [] \<or> (\<exists>c. sfx = [c] \<and> is_alpha c)"
  shows "lookup_key (''Article '' @ ds @ sfx) = Some (str_upper (ds @ sfx))"
proof -
  note l = lower_number[OF assms(2,3)]
  note s = letter_suffix_lower[OF l(2)]
  have "str_lower (str_strip (''Article '' @ ds @ sfx)) = str_lower (''Article '' @ (ds @ sfx))"
    using strip_Article_number[OF assms] by simp
  also have "\<dots> = str_lower ''Article '' @ str_lower (ds @ sfx)" by (rule str_lower_append)
  also have "\<dots> = ''article '' @ ds @ str_lower sfx" by (simp only: lower_Article l(1))
  finally have q: "str_lower (str_strip (''Article '' @ ds @ sfx)) = ''article'' @ '' '' @ ds @ str_lower sfx"
    by simp
  have sp: "list_all is_space '' ''" by (simp add: is_space_def whitespace_def)
  have "article_at (''article'' @ '' '' @ ds @ str_lower sfx) = Some (ds @ str_lower sfx)"
    using article_at_run[of "''article''" "'' ''" ds "str_lower sfx"] sp assms(1,2) s by simp
  then have "re_search_article (''article'' @ '' '' @ ds @ str_lower sfx) = Some (ds @ str_lower sfx)"
    by (rule search_here)
  then show ?thesis using q l(3) by (simp add: lookup_key_def)
qed

section \<open>Claims about the resolver\<close>

text \<open>
  Claim C1. For every article id \<open>k\<close> (digits, then at most one upper-case letter) that
  the store holds, the query \<^verbatim>\<open>"Article " + k\<close> is answered with exactly the header
  line \<^verbatim>\<open>Article\<close> and the upper-cased id, which is \<open>k\<close> itself, then an empty line,
  then the stored body unchanged.
\<close>

theorem article_query_returns_body:
  assumes "is_article_id k" "store k = Some body"
  shows "get_answer (''Article '' @ k) store = ''Article '' @ str_upper k @ [NL, NL] @ body
         \<and> str_upper k = k"
proof -
  obtain ds sfx where p: "k = ds @ sfx" "ds \<noteq> []" "list_all is_digit ds"
      "sfx = [] \<or> (\<exists>c. sfx = [c] \<and> is_upper c)"
    using article_id_parts[OF assms(1)] by blast
  have a: "sfx = [] \<or> (\<exists>c. sfx = [c] \<and> is_alpha c)" using p(4) by (auto simp: is_alpha_def)
  have "str_upper sfx = sfx"
    using p(4) by (auto simp: str_upper_def to_upper_other upper_not_lower)
  then have u: "str_upper k = k"
    using p(1,3) by (simp only: str_upper_append str_upper_digits)
  have "lookup_key (''Article '' @ k) = Some k"
    using key_of_article_query[OF p(2,3) a] p(1) u by simp
  then show ?thesis using assms(2) u by (simp add: get_answer_key lookup_def)
qed

theorem article_query_returns_body_witness:
  "is_article_id ''21A'' \<and>
   get_answer ''Article 21A'' [''21A'' \<mapsto> ''Right to education''] =
     ''Article 21A'' @ [NL, NL] @ ''Right to education''"
proof -
  have h: "is_article_id ''21A''" by code_simp
  have u: "str_upper ''21A'' = ''21A''" by code_simp
  have s: "[''21A'' \<mapsto> ''Right to education''] ''21A'' = Some ''Right to education''" by simp
  show ?thesis
    using h u s article_query_returns_body[of "''21A''" "[''21A'' \<mapsto> ''Right to education'']"
        "''Right to education''"]
    by simp
qed

text \<open>
  Claim C7. A query whose trimmed text is a number with an optional single letter
  (of either case) is answered, for every store, exactly as the query
  \<^verbatim>\<open>"Article "\<close> followed by that text is: both look up the upper-cased text.
\<close>

theorem bare_number_like_article:
  assumes "str_strip query = ds @ sfx" "ds \<noteq> []" "list_all is_digit ds"
    "sfx = [] \<or> (\<exists>c. sfx = [c] \<and> is_alpha c)"
  shows "get_answer query store = get_answer (''Article '' @ ds @ sfx) store
         \<and> get_answer query store = lookup (str_upper (ds @ sfx)) store"
  using key_of_bare[OF assms] key_of_article_query[OF assms(2,3,4)]
  by (simp add: get_answer_key)

theorem bare_number_like_article_witness:
  "str_strip '' 21a '' = ''21'' @ ''a'' \<and> list_all is_digit ''21'' \<and> is_alpha (CHR ''a'') \<and>
   (\<forall>store. get_answer '' 21a '' store = get_answer ''Article 21a'' store) \<and>
   (\<forall>store. get_answer '' 21a '' store = lookup ''21A'' store)"
proof -
  have a: "str_strip '' 21a '' = ''21'' @ ''a''" by code_simp
  have b: "list_all is_digit ''21''" by code_simp
  have c: "is_alpha (CHR ''a'')" by code_simp
  have d: "''a'' = [] \<or> (\<exists>c. ''a'' = [c] \<and> is_alpha c)" using c by simp
  have e: "str_upper ''21a'' = ''21A''" by code_simp
  have n: "''21'' \<noteq> []" by simp
  have t: "get_answer '' 21a '' store = get_answer ''Article 21a'' store \<and>
           get_answer '' 21a '' store = lookup ''21A'' store" for store
    using bare_number_like_article[OF a n b d, of store, unfolded append_Cons append_Nil e]
    by blast
  show ?thesis using a b c t by blast
qed

lemma rstrip_cons:
  "\<not> is_space c \<Longrightarrow>
   rev (dropWhile is_space (rev (c # t))) = c # rev (dropWhile is_space (rev t))"
  by (simp add: dropWhile_append3)

lemma strip_cons:
  "\<not> is_space c \<Longrightarrow> str_strip (c # t) = c # rev (dropWhile is_space (rev t))"
  by (simp add: str_strip_def dropWhile_append3)

lemma rstrip_space_hd:
  "rev (dropWhile is_space (rev (CHR '' '' # x))) = [] \<or>
   (\<exists>y. rev (dropWhile is_space (rev (CHR '' '' # x))) = CHR '' '' # y)"
proof -
  define d where "d = dropWhile is_space (rev (CHR '' '' # x))"
  show ?thesis
  proof (cases "d = []")
    case True
    then show ?thesis by (simp add: d_def)
  next
    case False
    have "rev (CHR '' '' # x) = takeWhile is_space (rev (CHR '' '' # x)) @ d"
      by (simp add: d_def)
    then have "last (rev (CHR '' '' # x)) = last d" using False by (metis last_appendR)
    then have "last d = CHR '' ''" by simp
    then have "hd (rev d) = CHR '' ''" using False by (simp add: hd_rev)
    then have "rev d = CHR '' '' # tl (rev d)" using False by (cases "rev d") auto
    then show ?thesis unfolding d_def by blast
  qed
qed

lemma letter_classes:
  "\<not> is_space (CHR ''p'')" "\<not> is_space (CHR ''a'')" "\<not> is_space (CHR ''r'')"
  "\<not> is_space (CHR ''t'')" "\<not> is_space (CHR ''i'')" "\<not> is_space (CHR ''c'')"
  "\<not> is_space (CHR ''l'')" "\<not> is_space (CHR ''e'')"
  "\<not> is_digit (CHR ''p'')" "\<not> is_digit (CHR ''a'')" "\<not> is_digit (CHR ''i'')"
  "is_space (CHR '' '')"
  by code_simp+

lemma lower_part: "str_lower ''part'' = ''part''" and lower_article: "str_lower ''article'' = ''article''"
  by code_simp+

lemma strip_part:
  "str_strip (''part '' @ x) = ''part'' @ rev (dropWhile is_space (rev (CHR '' '' # x)))"
  using letter_classes by (simp add: strip_cons rstrip_cons del: rev.simps)

lemma strip_article:
  "str_strip (''article '' @ x) = ''article'' @ rev (dropWhile is_space (rev (CHR '' '' # x)))"
  using letter_classes by (simp add: strip_cons rstrip_cons del: rev.simps)

lemma search_part_article:
  "re_search_article (''part'' @ CHR '' '' # y) = re_search_article (''article'' @ CHR '' '' # y)"
  using letter_classes
  by (cases "ws_num (CHR '' '' # y)")
     (simp_all add: article_at_def ws_num_def num_group_def)

lemma search_part_article_end:
  "re_search_article ''part'' = None" "re_search_article ''article'' = None"
  by code_simp+

lemma lower_space: "to_lower (CHR '' '') = CHR '' ''"
  by code_simp

lemma no_number_part:
  "\<not> re_match_number (''part'' @ y)" "\<not> re_match_number (''article'' @ y)"
  using letter_classes by (simp_all add: re_match_number_def)

lemma part_as_article:
  "get_answer (''part '' @ x) store = get_answer (''article '' @ x) store"
proof -
  define r where "r = rev (dropWhile is_space (rev (CHR '' '' # x)))"
  have q1: "str_lower (str_strip (''part '' @ x)) = ''part'' @ str_lower r"
    unfolding strip_part r_def[symmetric] by (simp only: str_lower_append lower_part)
  have q2: "str_lower (str_strip (''article '' @ x)) = ''article'' @ str_lower r"
    unfolding strip_article r_def[symmetric] by (simp only: str_lower_append lower_article)
  have "r = [] \<or> (\<exists>y. r = CHR '' '' # y)" unfolding r_def by (rule rstrip_space_hd)
  then have "str_lower r = [] \<or> (\<exists>y. str_lower r = CHR '' '' # y)"
    by (auto simp: str_lower_def lower_space)
  then have s: "re_search_article (''part'' @ str_lower r) =
                re_search_article (''article'' @ str_lower r)"
  proof (elim disjE exE)
    assume "str_lower r = []"
    then show ?thesis by (simp only: search_part_article_end append_Nil2)
  next
    fix y assume "str_lower r = CHR '' '' # y"
    then show ?thesis by (simp only: search_part_article)
  qed
  show ?thesis
    unfolding get_answer_def q1 q2 Let_def s using no_number_part by simp
qed

lemma lookup_not_fallback: "lookup key store \<noteq> no_information_message"
  by (simp add: lookup_def not_found_message_def no_information_message_def
           split: option.splits)

lemma article_at_p: "article_at (CHR ''p'' # t) = None"
  by (simp add: article_at_def)

lemma strip_part_number:
  assumes "ds \<noteq> []" "list_all is_digit ds" "sfx = [] \<or> (\<exists>c. sfx = [c] \<and> is_alpha c)"
  shows "str_strip (''part '' @ ds @ sfx) = ''part '' @ ds @ sfx"
proof (rule str_strip_id)
  show "''part '' @ ds @ sfx \<noteq> []" by simp
  show "\<not> is_space (hd (''part '' @ ds @ sfx))" using letter_classes by simp
  have "is_digit (last ds)" using assms(1,2) by (simp add: list_all_iff)
  then have "\<not> is_space (last (ds @ sfx))"
    using assms(1,3) by (auto simp: digit_not_space alpha_not_space)
  then show "\<not> is_space (last (''part '' @ ds @ sfx))" using assms(1) by simp
qed

lemma lower_part_space: "str_lower ''part '' = ''part ''"
  by code_simp

lemma key_of_part_query:
  assumes "ds \<noteq> []" "list_all is_digit ds" "sfx = [] \<or> (\<exists>c. sfx = [c] \<and> is_alpha c)"
  shows "lookup_key (''part '' @ ds @ sfx) = Some (str_upper (ds @ sfx))"
proof -
  note l = lower_number[OF assms(2,3)]
  note s = letter_suffix_lower[OF l(2)]
  have "str_lower (str_strip (''part '' @ ds @ sfx)) = str_lower (''part '' @ (ds @ sfx))"
    using strip_part_number[OF assms] by simp
  also have "\<dots> = str_lower ''part '' @ str_lower (ds @ sfx)" by (rule str_lower_append)
  also have "\<dots> = ''part '' @ ds @ str_lower sfx" by (simp only: lower_part_space l(1))
  finally have q: "str_lower (str_strip (''part '' @ ds @ sfx)) =
                   CHR ''p'' # (''art'' @ '' '' @ ds @ str_lower sfx)"
    by simp
  have sp: "list_all is_space '' ''" using letter_classes by simp
  have "article_at (''art'' @ '' '' @ ds @ str_lower sfx) = Some (ds @ str_lower sfx)"
    using article_at_run[of "''art''" "'' ''" ds "str_lower sfx"] sp assms(1,2) s by simp
  then have "re_search_article (''art'' @ '' '' @ ds @ str_lower sfx) = Some (ds @ str_lower sfx)"
    by (rule search_here)
  then have "re_search_article (CHR ''p'' # (''art'' @ '' '' @ ds @ str_lower sfx)) =
             Some (ds @ str_lower sfx)"
    by (simp only: re_search_article.simps article_at_p option.case)
  then show ?thesis unfolding lookup_key_def q Let_def using l(3) by simp
qed

lemma upper_21: "str_upper ''21'' = ''21''"
  by code_simp

lemma digits_21: "list_all is_digit ''21''"
  by code_simp

text \<open>
  Claim C10. The search finds \<^verbatim>\<open>art\<close> inside a longer word. For a number \<open>ds\<close> with an
  optional letter \<open>sfx\<close>, the query \<^verbatim>\<open>"part " + ds + sfx\<close> resolves to the key
  \<open>ds + sfx\<close> in upper case: the answer is the article lookup of that key (the
  stored body under its heading, or the article-not-found message), it is never the
  general fallback, and it is the answer that \<^verbatim>\<open>"article " + ds + sfx\<close> gets. So
  \<^verbatim>\<open>part 21\<close> is the lookup of article \<^verbatim>\<open>21\<close>.
\<close>

theorem art_inside_a_word:
  assumes "ds \<noteq> []" "list_all is_digit ds" "sfx = [] \<or> (\<exists>c. sfx = [c] \<and> is_alpha c)"
  shows "lookup_key (''part '' @ ds @ sfx) = Some (str_upper (ds @ sfx)) \<and>
         get_answer (''part '' @ ds @ sfx) store = lookup (str_upper (ds @ sfx)) store \<and>
         get_answer (''part '' @ ds @ sfx) store \<noteq> no_information_message \<and>
         get_answer (''part '' @ ds @ sfx) store = get_answer (''article '' @ ds @ sfx) store"
proof -
  note k = key_of_part_query[OF assms]
  have a: "get_answer (''part '' @ ds @ sfx) store = lookup (str_upper (ds @ sfx)) store"
    by (simp only: get_answer_key k option.case)
  show ?thesis
    using k a lookup_not_fallback[of "str_upper (ds @ sfx)" store]
          part_as_article[of "ds @ sfx" store]
    by (simp only: append_assoc simp_thms)
qed

theorem art_inside_a_word_witness:
  "lookup_key ''part 21'' = Some ''21'' \<and>
   (\<forall>store. get_answer ''part 21'' store = lookup ''21'' store) \<and>
   (\<forall>store. get_answer ''part 21'' store \<noteq> no_information_message) \<and>
   (\<forall>store. get_answer ''part 21'' store = get_answer ''article 21'' store) \<and>
   get_answer ''part 21'' [''21'' \<mapsto> ''Protection of life and personal liberty.''] =
     ''Article 21'' @ [NL, NL] @ ''Protection of life and personal liberty.'' \<and>
   get_answer ''part 21'' Map.empty = not_found_message"
proof -
  have h: "''21'' \<noteq> []" "list_all is_digit ''21''"
          "[] = [] \<or> (\<exists>c. ([]::string) = [c] \<and> is_alpha c)"
    using digits_21 by simp_all
  note t = art_inside_a_word[OF h, unfolded append_Nil2 upper_21 append_Cons append_Nil]
  have l1: "lookup ''21'' [''21'' \<mapsto> ''Protection of life and personal liberty.''] =
     ''Article 21'' @ [NL, NL] @ ''Protection of life and personal liberty.''"
    by (simp add: lookup_def)
  have l2: "lookup ''21'' Map.empty = not_found_message" by (simp add: lookup_def)
  have a: "lookup_key ''part 21'' = Some ''21''" using t by blast
  have b: "get_answer ''part 21'' store = lookup ''21'' store" for store using t by blast
  have c: "get_answer ''part 21'' store \<noteq> no_information_message" for store using t by blast
  have d: "get_answer ''part 21'' store = get_answer ''article 21'' store" for store
    using t by blast
  show ?thesis using a b c d l1 l2 by (simp only: simp_thms)
qed

text \<open>
  Claim C8. The answer does not depend on letter case: two queries that are equal
  once lower-cased, such as \<^verbatim>\<open>ARTICLE 21\<close> and \<^verbatim>\<open>article 21\<close>, or \<^verbatim>\<open>article 21a\<close>
  and \<^verbatim>\<open>article 21A\<close>, get the same answer from every store.
\<close>

theorem answer_ignores_letter_case:
  "str_lower q1 = str_lower q2 \<Longrightarrow> get_answer q1 store = get_answer q2 store"
  by (simp add: get_answer_def str_lower_strip)

theorem answer_ignores_letter_case_witness:
  "str_lower ''ARTICLE 21'' = str_lower ''article 21'' \<and>
   (\<forall>store. get_answer ''ARTICLE 21'' store = get_answer ''article 21'' store) \<and>
   str_lower ''article 21a'' = str_lower ''article 21A'' \<and>
   (\<forall>store. get_answer ''article 21a'' store = get_answer ''article 21A'' store)"
proof -
  have a: "str_lower ''ARTICLE 21'' = str_lower ''article 21''" by code_simp
  have b: "str_lower ''article 21a'' = str_lower ''article 21A''" by code_simp
  show ?thesis
    using a b answer_ignores_letter_case[OF a] answer_ignores_letter_case[OF b] by blast
qed

text \<open>
  Claim C6. The two failure answers are fixed strings: a query whose lookup key is not
  in the store gets the not-found message, a query with no lookup key (such as
  \<^verbatim>\<open>what is democracy\<close>) gets the no-information message, and the two messages
  differ. The resolver is a total function to strings, so neither case is an error.
\<close>

theorem failure_messages:
  "(lookup_key query = Some key \<and> store key = None \<longrightarrow>
      get_answer query store = not_found_message) \<and>
   (lookup_key query = None \<longrightarrow> get_answer query store = no_information_message) \<and>
   lookup_key ''what is democracy'' = None \<and>
   not_found_message \<noteq> no_information_message"
proof -
  have "lookup_key ''what is democracy'' = None" by code_simp
  moreover have "not_found_message \<noteq> no_information_message"
    by (simp add: not_found_message_def no_information_message_def)
  ultimately show ?thesis by (simp add: get_answer_key lookup_def)
qed

theorem failure_messages_witness:
  "lookup_key ''article 999'' = Some ''999'' \<and>
   get_answer ''article 999'' [''21'' \<mapsto> ''Protection of life and personal liberty.''] =
     not_found_message \<and>
   lookup_key ''what is democracy'' = None \<and>
   get_answer ''what is democracy'' [''21'' \<mapsto> ''Protection of life and personal liberty.''] =
     no_information_message"
proof -
  have a: "lookup_key ''article 999'' = Some ''999''" by code_simp
  have b: "[''21'' \<mapsto> ''Protection of life and personal liberty.''] ''999'' = None" by simp
  have c: "lookup_key ''what is democracy'' = None" by code_simp
  show ?thesis
    using a b c
      failure_messages[of "''article 999''" "''999''"
        "[''21'' \<mapsto> ''Protection of life and personal liberty.'']"]
      failure_messages[of "''what is democracy''" "''999''"
        "[''21'' \<mapsto> ''Protection of life and personal liberty.'']"]
    by blast
qed

lemma keyword_number_starts: "keyword_number_at s \<Longrightarrow> starts_with ''art'' s"
  by (auto simp: keyword_number_at_def)

text \<open>
  Claim C5, as amended. When the trimmed, lower-cased query holds the keyword
  \<^verbatim>\<open>article\<close>, \<^verbatim>\<open>art\<close> or \<^verbatim>\<open>art.\<close>, then any whitespace, then a run of digits \<open>ds\<close>
  that the next character does not continue, and the pattern starts at no earlier
  position, the lookup key is \<open>ds\<close> with the lower-case letter that follows it (if one
  does), upper-cased; \<^verbatim>\<open>art. 21\<close> gives the key \<^verbatim>\<open>21\<close>. The period is accepted after
  \<^verbatim>\<open>art\<close> only: \<^verbatim>\<open>article. 21\<close> gives no key and is answered with the no-information
  message, which is the counterexample to the claim as first stated.
\<close>

theorem keyword_number_key:
  assumes "str_lower (str_strip query) = pre @ kw @ ws @ ds @ rest"
    and "kw = ''article'' \<or> kw = ''art'' \<or> kw = ''art.''"
    and "list_all is_space ws" and "ds \<noteq> []" and "list_all is_digit ds"
    and "rest = [] \<or> \<not> is_digit (hd rest)"
    and "\<forall>i<length pre. \<not> keyword_number_at (drop i (pre @ kw @ ws @ ds @ rest))"
  shows "lookup_key query = Some (str_upper (ds @ letter_suffix rest)) \<and>
         get_answer query store = lookup (str_upper (ds @ letter_suffix rest)) store"
proof -
  have "re_search_article (pre @ kw @ ws @ ds @ rest) = re_search_article (kw @ ws @ ds @ rest)"
    using assms(7) by (rule search_skip)
  also have "\<dots> = Some (ds @ letter_suffix rest)"
    using article_at_run[OF assms(2,3,4,5,6)] by (rule search_here)
  finally have k: "lookup_key query = Some (str_upper (ds @ letter_suffix rest))"
    using assms(1) by (simp add: lookup_key_def)
  then show ?thesis by (simp add: get_answer_key)
qed

theorem keyword_number_key_witness:
  "str_lower (str_strip ''See Art. 21A now'') = ''see '' @ ''art.'' @ '' '' @ ''21'' @ ''a now'' \<and>
   list_all is_space '' '' \<and> list_all is_digit ''21'' \<and>
   \<not> keyword_number_at ''see art. 21a now'' \<and> \<not> keyword_number_at ''ee art. 21a now'' \<and>
   \<not> keyword_number_at ''e art. 21a now'' \<and> \<not> keyword_number_at '' art. 21a now'' \<and>
   lookup_key ''See Art. 21A now'' = Some ''21A'' \<and>
   (\<forall>store. get_answer ''See Art. 21A now'' store = lookup ''21A'' store) \<and>
   lookup_key ''art. 21'' = Some ''21''"
proof -
  have a: "str_lower (str_strip ''See Art. 21A now'') = ''see '' @ ''art.'' @ '' '' @ ''21'' @ ''a now''"
    by code_simp
  have b: "list_all is_space '' ''" by code_simp
  have c: "list_all is_digit ''21''" by code_simp
  have d: "''a now'' = [] \<or> \<not> is_digit (hd ''a now'')" by code_simp
  have n: "\<forall>i\<in>set [0..<4]. \<not> starts_with ''art'' (drop i ''see art. 21a now'')" by code_simp
  have e: "\<forall>i<length ''see ''. \<not> keyword_number_at (drop i (''see '' @ ''art.'' @ '' '' @ ''21'' @ ''a now''))"
  proof (intro allI impI)
    fix i :: nat
    assume "i < length ''see ''"
    then have "i \<in> set [0..<4]" by simp
    with n have "\<not> starts_with ''art'' (drop i ''see art. 21a now'')" by blast
    then have "\<not> keyword_number_at (drop i ''see art. 21a now'')"
      using keyword_number_starts by blast
    then show "\<not> keyword_number_at (drop i (''see '' @ ''art.'' @ '' '' @ ''21'' @ ''a now''))"
      by simp
  qed
  have f: "str_upper (''21'' @ letter_suffix ''a now'') = ''21A''" by code_simp
  have g: "lookup_key ''art. 21'' = Some ''21''" by code_simp
  have t: "lookup_key ''See Art. 21A now'' = Some ''21A'' \<and>
           get_answer ''See Art. 21A now'' store = lookup ''21A'' store" for store
    using keyword_number_key[OF a _ b _ c d e, of store, unfolded f] by simp
  have e': "\<not> keyword_number_at ''see art. 21a now'' \<and> \<not> keyword_number_at ''ee art. 21a now'' \<and>
      \<not> keyword_number_at ''e art. 21a now'' \<and> \<not> keyword_number_at '' art. 21a now''"
    using e[rule_format, of 0] e[rule_format, of 1] e[rule_format, of 2] e[rule_format, of 3]
    by simp
  show ?thesis using a b c e' g t by blast
qed

theorem period_after_article_counterexample:
  "lookup_key ''article. 21'' = None \<and>
   get_answer ''article. 21'' [''21'' \<mapsto> ''Protection of life and personal liberty.''] =
     no_information_message"
proof -
  have "lookup_key ''article. 21'' = None" by code_simp
  then show ?thesis by (simp add: get_answer_key)
qed

lemma takeWhile_all: "list_all P (takeWhile P s)"
  by (simp add: list_all_iff) (metis set_takeWhileD)

lemma upper_not_digit: "is_upper c \<Longrightarrow> \<not> is_digit c"
  using digit_not_upper by blast

lemma article_id_digits:
  assumes "ds \<noteq> []" "list_all is_digit ds"
  shows "is_article_id ds"
proof -
  have a: "\<And>x. x \<in> set ds \<Longrightarrow> is_digit x" using assms(2) by (simp add: list_all_iff)
  have "takeWhile is_digit ds = ds" using a by (simp add: takeWhile_eq_all_conv)
  moreover have "dropWhile is_digit ds = []" using a by simp
  ultimately show ?thesis using assms(1) by (simp only: is_article_id_def) simp
qed

lemma article_id_letter:
  assumes "ds \<noteq> []" "list_all is_digit ds" "is_upper c"
  shows "is_article_id (ds @ [c])"
proof -
  have "[c] = [] \<or> \<not> is_digit (hd [c])" using assms(3) by (simp add: upper_not_digit)
  from span_digits[OF assms(2) this] show ?thesis
    using assms(1,3) by (simp add: is_article_id_def)
qed

lemma art_body_Some:
  assumes "art_body s = Some (n, c)"
  shows "takeWhile is_digit s \<noteq> []"
    and "\<exists>d r. dropWhile is_digit s = d # r \<and> (d = CHR ''.'' \<or> is_upper d)"
    and "is_article_id n"
proof -
  show a: "takeWhile is_digit s \<noteq> []"
    using assms by (auto simp: art_body_def Let_def split: if_splits)
  show "\<exists>d r. dropWhile is_digit s = d # r \<and> (d = CHR ''.'' \<or> is_upper d)"
    using assms
    by (auto simp: art_body_def dot_content_def Let_def
        split: if_splits list.splits option.splits)
  have "n = takeWhile is_digit s \<or> (\<exists>d. is_upper d \<and> n = takeWhile is_digit s @ [d])"
    using assms
    by (auto simp: art_body_def Let_def split: if_splits list.splits option.splits)
  then show "is_article_id n"
    using a takeWhile_all[of is_digit s] article_id_digits article_id_letter by auto
qed

lemma bracket_prefix_Some:
  assumes "bracket_prefix s = Some r"
  shows "takeWhile is_digit s \<noteq> []" and "dropWhile is_digit s = CHR ''['' # r"
  using assms by (auto simp: bracket_prefix_def Let_def split: if_splits list.splits)

lemma part_or_chapter_hd:
  assumes "part_or_chapter s"
  shows "takeWhile is_digit s = []"
proof -
  have "(\<exists>r. lit ''PART'' s = Some r) \<or> (\<exists>r. lit ''CHAPTER'' s = Some r)"
    using assms by (auto simp: part_or_chapter_def split: option.splits)
  then have "\<exists>t. s = CHR ''P'' # t \<or> s = CHR ''C'' # t"
    using lit_Some by fastforce
  moreover have "\<not> is_digit (CHR ''P'')" "\<not> is_digit (CHR ''C'')" by code_simp+
  ultimately show ?thesis by auto
qed

lemma bracket_not_upper_dot: "\<not> is_upper (CHR ''['')" "CHR ''['' \<noteq> CHR ''.''"
  by code_simp+

lemma art_not_structure:
  assumes "art_pattern line = Some m"
  shows "\<not> structure_pattern line"
proof
  assume s: "structure_pattern line"
  obtain n c where m: "m = (n, c)" by (cases m)
  show False
  proof (cases "bracket_prefix line")
    case None
    with assms m have b: "art_body line = Some (n, c)" by (simp add: art_pattern_def)
    from s None have "part_or_chapter line" by (simp add: structure_pattern_def)
    then show False using art_body_Some(1)[OF b] part_or_chapter_hd by blast
  next
    case (Some r)
    note bp = bracket_prefix_Some[OF Some]
    have nl: "\<not> part_or_chapter line" using bp(1) part_or_chapter_hd by blast
    with s Some have pr: "part_or_chapter r" by (simp add: structure_pattern_def)
    have "art_body r = Some (n, c) \<or> art_body line = Some (n, c)"
      using assms m Some by (auto simp: art_pattern_def split: option.splits)
    then show False
    proof
      assume "art_body r = Some (n, c)"
      then show False using art_body_Some(1) part_or_chapter_hd[OF pr] by blast
    next
      assume "art_body line = Some (n, c)"
      then show False using art_body_Some(2) bp(2) bracket_not_upper_dot by fastforce
    qed
  qed
qed

lemma art_pattern_id: "art_pattern line = Some (n, c) \<Longrightarrow> is_article_id n"
  using art_body_Some(3) by (auto simp: art_pattern_def split: option.splits)

lemma dot_not_upper_bracket: "\<not> is_upper (CHR ''.'')" "CHR ''.'' \<noteq> CHR ''[''"
  by code_simp+

lemma footnote_is_art:
  assumes "footnote_regex line"
  shows "\<exists>m. art_pattern line = Some m"
proof -
  from assms obtain r where r: "takeWhile is_digit line \<noteq> []"
      "dropWhile is_digit line = CHR ''.'' # r" "takeWhile is_space r \<noteq> []"
    by (auto simp: footnote_regex_def Let_def split: if_splits list.splits)
  have b: "bracket_prefix line = None"
    using r(2) dot_not_upper_bracket by (simp add: bracket_prefix_def Let_def)
  have "\<exists>m. art_body line = Some m"
    using r dot_not_upper_bracket by (simp add: art_body_def dot_content_def Let_def)
  with b show ?thesis by (simp add: art_pattern_def)
qed


subsection \<open>One line of the scan\<close>

lemma save_current_fields:
  "current_art_num (save_current st) = current_art_num st"
  "current_art_text (save_current st) = current_art_text st"
  "seen_articles (save_current st) = seen_articles st"
  by (simp_all add: save_current_def split: option.splits)

lemma save_current_other:
  "current_art_num st \<noteq> Some k \<Longrightarrow> articles (save_current st) k = articles st k"
  by (auto simp: save_current_def split: option.splits)

lemma process_line_cases:
  "process_line st raw = st \<or>
   (structure_pattern (str_strip raw) \<and>
    process_line st raw = (save_current st)\<lparr>current_art_num := None, current_art_text := []\<rparr>) \<or>
   (\<exists>n c. art_pattern (str_strip raw) = Some (n, c) \<and> n \<notin> seen_articles st \<and>
      process_line st raw =
        (save_current st)\<lparr>current_art_num := Some n, current_art_text := [c],
                           seen_articles := insert n (seen_articles st)\<rparr>) \<or>
   process_line st raw = st\<lparr>current_art_text := current_art_text st @ [str_strip raw]\<rparr>"
  by (auto simp: process_line_def Let_def split: option.splits)

lemma seen_grows: "seen_articles st \<subseteq> seen_articles (process_line st raw)"
  using process_line_cases[of st raw] by (auto simp: save_current_fields)

lemma seen_grows_lines: "seen_articles st \<subseteq> seen_articles (foldl process_line st ls)"
proof (induction ls arbitrary: st)
  case Nil
  then show ?case by simp
next
  case (Cons l ls)
  have "seen_articles st \<subseteq> seen_articles (process_line st l)" by (rule seen_grows)
  also have "\<dots> \<subseteq> seen_articles (foldl process_line (process_line st l) ls)" by (rule Cons.IH)
  finally show ?case by simp
qed

lemma dropped_line:
  "process_line (foldl process_line st xs) raw = foldl process_line st xs \<Longrightarrow>
   foldl process_line st (xs @ raw # ys) = foldl process_line st (xs @ ys)"
  by simp

section \<open>Claims about the extractor\<close>

text \<open>
  Claim C4. A line whose trimmed text matches the footnote pattern (a number, a period,
  whitespace, then one of the keywords \<^verbatim>\<open>Subs.\<close>, \<^verbatim>\<open>Ins.\<close>, \<^verbatim>\<open>Omitted\<close>, \<^verbatim>\<open>Rep.\<close>,
  \<^verbatim>\<open>Added\<close>, \<^verbatim>\<open>Substituted\<close>, \<^verbatim>\<open>Inserted\<close>), or that matches the article-start pattern
  with a content that holds \<^verbatim>\<open>Amendment) Act\<close> or \<^verbatim>\<open>w.e.f.\<close> or has no letter, leaves
  the whole scan state as it is (store, article in progress, its lines, seen set): it
  creates no entry and extends no text, and a scan with the line is a scan without it.
  The witness is the line
  \<^verbatim>\<open>1. Subs. by the Constitution (Forty-second Amendment) Act, 1976\<close>.
\<close>

theorem footnote_line_is_dropped:
  assumes "footnote_regex (str_strip raw) \<or>
           (\<exists>n content. art_pattern (str_strip raw) = Some (n, content) \<and>
              (str_contains ''Amendment) Act'' content \<or> str_contains ''w.e.f.'' content \<or>
               \<not> list_ex is_alpha content))"
  shows "process_line st raw = st \<and>
         foldl process_line st (xs @ raw # ys) = foldl process_line st (xs @ ys)"
proof -
  have one: "process_line s raw = s" for s
  proof -
    obtain n c where a: "art_pattern (str_strip raw) = Some (n, c)"
      using assms footnote_is_art by fastforce
    have ns: "\<not> structure_pattern (str_strip raw)" using a by (rule art_not_structure)
    show ?thesis using assms a ns by (auto simp: process_line_def Let_def)
  qed
  show ?thesis using one[of st] one[of "foldl process_line st xs"] by simp
qed

text \<open>
  Claim C3. First occurrence wins: once an id \<open>k\<close> is in the seen set (after the lines
  \<open>xs\<close>), a line that matches the article-start pattern with the id \<open>k\<close>, wherever it
  comes later (after any further lines \<open>ys\<close>), leaves the whole scan state as it is. It
  neither overwrites nor extends an entry nor starts an article, and the scan goes on
  as if the line were absent.
\<close>

theorem seen_id_is_discarded:
  assumes "art_pattern (str_strip raw) = Some (k, content)"
    and "k \<in> seen_articles (foldl process_line st xs)"
  shows "process_line (foldl process_line st (xs @ ys)) raw = foldl process_line st (xs @ ys) \<and>
         foldl process_line st (xs @ ys @ raw # zs) = foldl process_line st (xs @ ys @ zs)"
proof -
  define s where "s = foldl process_line st (xs @ ys)"
  have "s = foldl process_line (foldl process_line st xs) ys" by (simp add: s_def)
  then have k: "k \<in> seen_articles s" using assms(2) seen_grows_lines by blast
  have ns: "\<not> structure_pattern (str_strip raw)" using assms(1) by (rule art_not_structure)
  have one: "process_line s raw = s"
    using assms(1) k ns by (simp add: process_line_def Let_def)
  then have "foldl process_line st ((xs @ ys) @ raw # zs) = foldl process_line st ((xs @ ys) @ zs)"
    unfolding s_def by (rule dropped_line)
  with one show ?thesis unfolding s_def by simp
qed


theorem footnote_line_is_dropped_witness:
  "footnote_regex (str_strip ''1. Subs. by the Constitution (Forty-second Amendment) Act, 1976'') \<and>
   (\<forall>st. process_line st ''1. Subs. by the Constitution (Forty-second Amendment) Act, 1976'' = st) \<and>
   art_pattern (str_strip ''2. The words were omitted w.e.f. 1-11-1956'') =
     Some (''2'', ''The words were omitted w.e.f. 1-11-1956'') \<and>
   str_contains ''w.e.f.'' ''The words were omitted w.e.f. 1-11-1956'' \<and>
   (\<forall>st. process_line st ''2. The words were omitted w.e.f. 1-11-1956'' = st)"
proof -
  have a: "footnote_regex (str_strip ''1. Subs. by the Constitution (Forty-second Amendment) Act, 1976'')"
    by code_simp
  have b: "art_pattern (str_strip ''2. The words were omitted w.e.f. 1-11-1956'') =
     Some (''2'', ''The words were omitted w.e.f. 1-11-1956'')" by code_simp
  have c: "str_contains ''w.e.f.'' ''The words were omitted w.e.f. 1-11-1956''" by code_simp
  have d: "process_line st ''1. Subs. by the Constitution (Forty-second Amendment) Act, 1976'' = st"
    for st
    using a footnote_line_is_dropped[of
        "''1. Subs. by the Constitution (Forty-second Amendment) Act, 1976''" st "[]" "[]"]
    by blast
  have e: "process_line st ''2. The words were omitted w.e.f. 1-11-1956'' = st" for st
    using b c footnote_line_is_dropped[of "''2. The words were omitted w.e.f. 1-11-1956''" st "[]" "[]"]
    by blast
  show ?thesis using a b c d e by blast
qed

theorem seen_id_is_discarded_witness:
  "art_pattern (str_strip ''21. See the Constitution order'') =
     Some (''21'', ''See the Constitution order'') \<and>
   ''21'' \<in> seen_articles
      (foldl process_line initial_state [''21. Protection of life and personal liberty.'']) \<and>
   foldl process_line initial_state
     ([''21. Protection of life and personal liberty.''] @ [''No person shall be deprived...''] @
      ''21. See the Constitution order'' # [''PART IV'']) =
   foldl process_line initial_state
     ([''21. Protection of life and personal liberty.''] @ [''No person shall be deprived...''] @
      [''PART IV''])"
proof -
  have a: "art_pattern (str_strip ''21. See the Constitution order'') =
     Some (''21'', ''See the Constitution order'')" by code_simp
  have b: "''21'' \<in> seen_articles
      (foldl process_line initial_state [''21. Protection of life and personal liberty.''])"
    by code_simp
  show ?thesis using a b seen_id_is_discarded[OF a b] by blast
qed

subsection \<open>Well-formed stores\<close>

lemma strip_no_outer_space: "no_outer_space (str_strip s)"
  using str_strip_trimmed[of s] by (cases "str_strip s") (auto simp: no_outer_space_def)

lemma store_ok_save: "store_ok st \<Longrightarrow> store_ok (save_current st)"
  by (auto simp: store_ok_def save_current_def strip_no_outer_space split: option.splits)

lemma store_ok_line:
  assumes "store_ok st"
  shows "store_ok (process_line st raw)"
proof -
  note s = store_ok_save[OF assms]
  from process_line_cases[of st raw] show ?thesis
  proof (elim disjE exE conjE)
    assume "process_line st raw = st"
    then show ?thesis using assms by simp
  next
    assume "process_line st raw = (save_current st)\<lparr>current_art_num := None, current_art_text := []\<rparr>"
    then show ?thesis using s by (simp add: store_ok_def)
  next
    fix n c
    assume "art_pattern (str_strip raw) = Some (n, c)"
      and "process_line st raw =
        (save_current st)\<lparr>current_art_num := Some n, current_art_text := [c],
                           seen_articles := insert n (seen_articles st)\<rparr>"
    then show ?thesis using s art_pattern_id by (simp add: store_ok_def)
  next
    assume "process_line st raw = st\<lparr>current_art_text := current_art_text st @ [str_strip raw]\<rparr>"
    then show ?thesis using assms by (simp add: store_ok_def)
  qed
qed

lemma store_ok_lines: "store_ok st \<Longrightarrow> store_ok (foldl process_line st ls)"
  by (induction ls arbitrary: st) (simp_all add: store_ok_line)

lemma store_ok_page: "store_ok st \<Longrightarrow> store_ok (process_page st text)"
  by (simp add: process_page_def store_ok_lines)

lemma store_ok_pages: "store_ok st \<Longrightarrow> store_ok (foldl process_page st ps)"
  by (induction ps arbitrary: st) (simp_all add: store_ok_page)

lemma store_ok_initial: "store_ok initial_state"
  by (simp add: store_ok_def initial_state_def)

text \<open>
  Claim C9. Every key of the store that \<^verbatim>\<open>load_articles\<close> returns is digits followed
  by at most one upper-case letter, and every value has no whitespace at its start or
  its end.
\<close>

theorem store_well_formed:
  assumes "load_articles pages k = Some v"
  shows "is_article_id k \<and> no_outer_space v"
proof -
  have "store_ok (save_current (foldl process_page initial_state (drop start_page_index pages)))"
    by (intro store_ok_save store_ok_pages store_ok_initial)
  then show ?thesis using assms by (simp add: load_articles_def store_ok_def)
qed

theorem store_well_formed_witness:
  "load_articles (replicate 20 [] @
      [''  3[21A. Right to education.  \<newline> The State shall provide education. '', ''PART IV''])
     ''21A'' = Some ''Right to education.\<newline>The State shall provide education.'' \<and>
   is_article_id ''21A'' \<and>
   no_outer_space ''Right to education.\<newline>The State shall provide education.''"
proof -
  have a: "load_articles (replicate 20 [] @
      [''  3[21A. Right to education.  \<newline> The State shall provide education. '', ''PART IV''])
     ''21A'' = Some ''Right to education.\<newline>The State shall provide education.''"
    by code_simp
  show ?thesis using a store_well_formed[OF a] by blast
qed

subsection \<open>The scan as one pass over the trimmed lines\<close>

lemma str_strip_Nil: "str_strip [] = []"
  by (simp add: str_strip_def)

lemma str_strip_idem: "str_strip (str_strip s) = str_strip s"
proof (cases "str_strip s = []")
  case True
  then show ?thesis by (simp add: str_strip_Nil)
next
  case False
  then show ?thesis using str_strip_trimmed[of s] by (intro str_strip_id) auto
qed

lemma process_line_strip: "process_line st (str_strip raw) = process_line st raw"
  by (simp add: process_line_def str_strip_idem)

lemma process_line_blank: "str_strip raw = [] \<Longrightarrow> process_line st raw = st"
  by (simp add: process_line_def)

lemma lines_trimmed:
  "foldl process_line st (filter (\<lambda>l. l \<noteq> []) (map str_strip ls)) = foldl process_line st ls"
  by (induction ls arbitrary: st) (simp_all add: process_line_strip process_line_blank)

lemma pages_as_lines:
  "foldl process_page st ps = foldl process_line st (concat (map page_lines ps))"
  by (induction ps arbitrary: st) (simp_all add: process_page_def page_lines_def)

lemma load_articles_scanned:
  "load_articles pages =
     articles (save_current (foldl process_line initial_state (scanned_lines pages)))"
  by (simp add: load_articles_def scanned_lines_def lines_trimmed pages_as_lines)

subsection \<open>An entry that is finished stays\<close>

lemma finished_line:
  assumes "k \<in> seen_articles st" "current_art_num st \<noteq> Some k"
  shows "k \<in> seen_articles (process_line st raw)"
    and "current_art_num (process_line st raw) \<noteq> Some k"
    and "articles (process_line st raw) k = articles st k"
  using process_line_cases[of st raw] assms
  by (auto simp: save_current_fields save_current_other)

lemma finished_lines:
  assumes "k \<in> seen_articles st" "current_art_num st \<noteq> Some k"
  shows "current_art_num (foldl process_line st ls) \<noteq> Some k \<and>
         articles (foldl process_line st ls) k = articles st k"
  using assms
proof (induction ls arbitrary: st)
  case Nil
  then show ?case by simp
next
  case (Cons l ls)
  note f = finished_line[OF Cons.prems, of l]
  from Cons.IH[OF f(1) f(2)] f(3) show ?case by simp
qed

subsection \<open>The three kinds of step\<close>

lemma start_step:
  assumes "str_strip raw \<noteq> []" "\<not> structure_pattern (str_strip raw)"
    "art_pattern (str_strip raw) = Some (n, c)" "\<not> footnote_regex (str_strip raw)"
    "\<not> str_contains ''Amendment) Act'' c" "\<not> str_contains ''w.e.f.'' c" "list_ex is_alpha c"
    "n \<notin> seen_articles st"
  shows "process_line st raw =
           (save_current st)\<lparr>current_art_num := Some n, current_art_text := [c],
                              seen_articles := insert n (seen_articles st)\<rparr>"
  using assms by (simp add: process_line_def)

lemma continuation_step:
  assumes "str_strip raw \<noteq> []" "\<not> structure_pattern (str_strip raw)"
    "art_pattern (str_strip raw) = None" "\<not> re_match_digits (str_strip raw)"
    "\<not> re_match_digit_pair (str_strip raw)" "current_art_num st = Some n" "n \<noteq> []"
  shows "process_line st raw = st\<lparr>current_art_text := current_art_text st @ [str_strip raw]\<rparr>"
  using assms by (simp add: process_line_def truthy_def)

lemma structure_not_blank: "structure_pattern s \<Longrightarrow> s \<noteq> []"
  by (auto simp: structure_pattern_def part_or_chapter_def bracket_prefix_def)

lemma header_step:
  assumes "structure_pattern (str_strip raw)" "current_art_num st = Some n" "n \<noteq> []"
  shows "process_line st raw =
           st\<lparr>articles := (articles st)(n \<mapsto> str_strip (str_join_nl (current_art_text st))),
              current_art_num := None, current_art_text := []\<rparr>"
  using assms structure_not_blank[OF assms(1)]
  by (simp add: process_line_def truthy_def save_current_def)


text \<open>
  Claim C2, as amended. When the scanned lines (the trimmed, non-blank lines of the pages
  from the start page on, page breaks aside) hold the line
  \<^verbatim>\<open>21. Protection of life and personal liberty.\<close>, directly followed by
  \<^verbatim>\<open>No person shall be deprived...\<close>, directly followed by \<^verbatim>\<open>PART IV\<close>, and no earlier
  scanned line has started article 21, the store that \<^verbatim>\<open>load_articles\<close> returns maps
  \<^verbatim>\<open>21\<close> to the two texts joined by a line feed, whatever lines come before and
  after. The second part is the mechanism: a structure-header line met while an article
  is in progress stores that article's lines, joined by line feeds and trimmed, under
  its id, resets the scan to no article in progress, and adds nothing else. Without the
  two conditions the claim fails: after an earlier line \<^verbatim>\<open>21. Right to X\<close> the later
  article-start line is discarded and its continuation is appended to the earlier
  entry, which is the counterexample.
\<close>

theorem article_21_scenario:
  "(scanned_lines pages = pre @ [''21. Protection of life and personal liberty.'', ''No person shall be deprived...'', ''PART IV''] @ post \<and>
    ''21'' \<notin> seen_articles (foldl process_line initial_state pre) \<longrightarrow>
    load_articles pages ''21'' = Some ''Protection of life and personal liberty.\<newline>No person shall be deprived...'') \<and>
   (structure_pattern (str_strip raw) \<and> current_art_num st = Some n \<and> n \<noteq> [] \<longrightarrow>
    process_line st raw =
      st\<lparr>articles := (articles st)(n \<mapsto> str_strip (str_join_nl (current_art_text st))),
         current_art_num := None, current_art_text := []\<rparr>)"
proof (intro conjI impI)
  assume "structure_pattern (str_strip raw) \<and> current_art_num st = Some n \<and> n \<noteq> []"
  then show "process_line st raw =
      st\<lparr>articles := (articles st)(n \<mapsto> str_strip (str_join_nl (current_art_text st))),
         current_art_num := None, current_art_text := []\<rparr>"
    using header_step by blast
next
  assume h: "scanned_lines pages = pre @ [''21. Protection of life and personal liberty.'', ''No person shall be deprived...'', ''PART IV''] @ post \<and>
    ''21'' \<notin> seen_articles (foldl process_line initial_state pre)"
  define s0 where "s0 = foldl process_line initial_state pre"
  define s1 where "s1 = process_line s0 ''21. Protection of life and personal liberty.''"
  define s2 where "s2 = process_line s1 ''No person shall be deprived...''"
  define s3 where "s3 = process_line s2 ''PART IV''"
  have n0: "''21'' \<notin> seen_articles s0" using h by (simp add: s0_def)
  have a1: "str_strip ''21. Protection of life and personal liberty.'' \<noteq> []" by code_simp
  have a2: "\<not> structure_pattern (str_strip ''21. Protection of life and personal liberty.'')" by code_simp
  have a3: "art_pattern (str_strip ''21. Protection of life and personal liberty.'') = Some (''21'', ''Protection of life and personal liberty.'')" by code_simp
  have a4: "\<not> footnote_regex (str_strip ''21. Protection of life and personal liberty.'')" by code_simp
  have a5: "\<not> str_contains ''Amendment) Act'' ''Protection of life and personal liberty.''" by code_simp
  have a6: "\<not> str_contains ''w.e.f.'' ''Protection of life and personal liberty.''" by code_simp
  have a7: "list_ex is_alpha ''Protection of life and personal liberty.''" by code_simp
  have e1: "s1 = (save_current s0)\<lparr>current_art_num := Some ''21'', current_art_text := [''Protection of life and personal liberty.''],
                                   seen_articles := insert ''21'' (seen_articles s0)\<rparr>"
    unfolding s1_def using start_step[OF a1 a2 a3 a4 a5 a6 a7 n0] .
  have c1: "current_art_num s1 = Some ''21''" and t1: "current_art_text s1 = [''Protection of life and personal liberty.'']"
    and k1: "''21'' \<in> seen_articles s1"
    by (simp_all add: e1)
  have b1: "str_strip ''No person shall be deprived...'' \<noteq> []" by code_simp
  have b2: "\<not> structure_pattern (str_strip ''No person shall be deprived...'')" by code_simp
  have b3: "art_pattern (str_strip ''No person shall be deprived...'') = None" by code_simp
  have b4: "\<not> re_match_digits (str_strip ''No person shall be deprived...'')" by code_simp
  have b5: "\<not> re_match_digit_pair (str_strip ''No person shall be deprived...'')" by code_simp
  have ne: "''21'' \<noteq> []" by simp
  have e2: "s2 = s1\<lparr>current_art_text := current_art_text s1 @ [str_strip ''No person shall be deprived...'']\<rparr>"
    unfolding s2_def using continuation_step[OF b1 b2 b3 b4 b5 c1 ne] .
  have c2: "current_art_num s2 = Some ''21''"
    and t2: "current_art_text s2 = [''Protection of life and personal liberty.'', str_strip ''No person shall be deprived...'']"
    and k2: "''21'' \<in> seen_articles s2"
    using c1 t1 k1 by (simp_all add: e2)
  have d1: "structure_pattern (str_strip ''PART IV'')" by code_simp
  have e3: "s3 = s2\<lparr>articles := (articles s2)(''21'' \<mapsto> str_strip (str_join_nl (current_art_text s2))),
                    current_art_num := None, current_art_text := []\<rparr>"
    unfolding s3_def using header_step[OF d1 c2 ne] .
  have j: "str_strip (str_join_nl [''Protection of life and personal liberty.'', str_strip ''No person shall be deprived...'']) = ''Protection of life and personal liberty.\<newline>No person shall be deprived...''" by code_simp
  have v3: "articles s3 ''21'' = Some ''Protection of life and personal liberty.\<newline>No person shall be deprived...''" using t2 j by (simp add: e3)
  have c3: "current_art_num s3 \<noteq> Some ''21''" by (simp add: e3)
  have k3: "''21'' \<in> seen_articles s3" using k2 by (simp add: e3)
  define fin where "fin = foldl process_line s3 post"
  have all: "foldl process_line initial_state (scanned_lines pages) = fin"
    using h by (simp add: fin_def s3_def s2_def s1_def s0_def)
  have "current_art_num fin \<noteq> Some ''21'' \<and> articles fin ''21'' = articles s3 ''21''"
    unfolding fin_def using k3 c3 by (rule finished_lines)
  then have "articles (save_current fin) ''21'' = Some ''Protection of life and personal liberty.\<newline>No person shall be deprived...''"
    using v3 by (simp add: save_current_other)
  then show "load_articles pages ''21'' = Some ''Protection of life and personal liberty.\<newline>No person shall be deprived...''"
    by (simp add: load_articles_scanned all)
qed

theorem article_21_scenario_witness:
  "scanned_lines
     (replicate 20 ''21. Table of contents'' @
      [''20. Protection in respect of conviction for offences.'',
       ''  21. Protection of life and personal liberty.\<newline>No person shall be deprived...\<newline>'',
       [], ''PART IV\<newline>DIRECTIVE PRINCIPLES OF STATE POLICY'']) =
   [''20. Protection in respect of conviction for offences.''] @ [''21. Protection of life and personal liberty.'', ''No person shall be deprived...'', ''PART IV''] @
   [''DIRECTIVE PRINCIPLES OF STATE POLICY''] \<and>
   ''21'' \<notin> seen_articles (foldl process_line initial_state
       [''20. Protection in respect of conviction for offences.'']) \<and>
   load_articles
     (replicate 20 ''21. Table of contents'' @
      [''20. Protection in respect of conviction for offences.'',
       ''  21. Protection of life and personal liberty.\<newline>No person shall be deprived...\<newline>'',
       [], ''PART IV\<newline>DIRECTIVE PRINCIPLES OF STATE POLICY'']) ''21'' = Some ''Protection of life and personal liberty.\<newline>No person shall be deprived...''"
proof -
  have a: "scanned_lines
     (replicate 20 ''21. Table of contents'' @
      [''20. Protection in respect of conviction for offences.'',
       ''  21. Protection of life and personal liberty.\<newline>No person shall be deprived...\<newline>'',
       [], ''PART IV\<newline>DIRECTIVE PRINCIPLES OF STATE POLICY'']) =
   [''20. Protection in respect of conviction for offences.''] @ [''21. Protection of life and personal liberty.'', ''No person shall be deprived...'', ''PART IV''] @
   [''DIRECTIVE PRINCIPLES OF STATE POLICY'']" by code_simp
  have b: "''21'' \<notin> seen_articles (foldl process_line initial_state
       [''20. Protection in respect of conviction for offences.''])" by code_simp
  show ?thesis
    using a b article_21_scenario[of
        "replicate 20 ''21. Table of contents'' @
      [''20. Protection in respect of conviction for offences.'',
       ''  21. Protection of life and personal liberty.\<newline>No person shall be deprived...\<newline>'',
       [], ''PART IV\<newline>DIRECTIVE PRINCIPLES OF STATE POLICY'']"
        "[''20. Protection in respect of conviction for offences.'']"
        "[''DIRECTIVE PRINCIPLES OF STATE POLICY'']"]
    by blast
qed

theorem earlier_article_21_counterexample:
  "load_articles
     (replicate 20 [] @
      [''21. Right to X'',
       ''21. Protection of life and personal liberty.\<newline>No person shall be deprived...'',
       ''PART IV'']) ''21'' = Some ''Right to X\<newline>No person shall be deprived...'' \<and>
   load_articles
     (replicate 20 [] @
      [''21. Right to X'',
       ''21. Protection of life and personal liberty.\<newline>No person shall be deprived...'',
       ''PART IV'']) ''21'' \<noteq> Some ''Protection of life and personal liberty.\<newline>No person shall be deprived...''"
proof -
  have "load_articles
     (replicate 20 [] @
      [''21. Right to X'',
       ''21. Protection of life and personal liberty.\<newline>No person shall be deprived...'',
       ''PART IV'']) ''21'' = Some ''Right to X\<newline>No person shall be deprived...''"
    by code_simp
  then show ?thesis by simp
qed

end
